theory Spec2Isabelle
  imports Main "HOL-Library.Word"
begin

section \<open>StoneKV: an append-only record log with an in-memory index\<close>

text \<open>
  The development embeds \<^verbatim>\<open>stone/stone.go\<close>. A file is the list of its bytes, the file
  system maps a path to the file stored there, and a store is the name and read offset
  of its open handle together with the index \<^verbatim>\<open>map[string]uint64\<close>.

  Conventions of the embedding:
  \<^item> a byte is an \<open>8 word\<close>; a \<^verbatim>\<open>uint32\<close> is a natural number kept below \<open>2 ^ 32\<close>, and
    every conversion \<^verbatim>\<open>uint32(len(x))\<close> is written out as \<open>mod 2 ^ 32\<close>;
  \<^item> file offsets and sizes are natural numbers: a file is shorter than \<open>2 ^ 63\<close> bytes,
    so the \<^verbatim>\<open>int64\<close>/\<^verbatim>\<open>uint64\<close> conversions of the source are exact and \<^verbatim>\<open>Seek\<close> to a
    non-negative offset does not fail;
  \<^item> a read of a regular file fails only at end of file; whether a write, an open, a
    stat, a close or a rename fails is decided by the operating system and is an
    input of the model (the record \<open>env\<close>);
  \<^item> the mutex is left out: every operation runs under the lock from start to end.
\<close>

subsection \<open>Bytes and the little-endian length fields\<close>

type_synonym byte = "8 word"
type_synonym bytes = "byte list"
type_synonym path = string

text \<open>\<^verbatim>\<open>binary.LittleEndian.PutUint32(b, uint32(n))\<close>\<close>

definition put_u32 :: "nat \<Rightarrow> bytes" where
  "put_u32 n =
     (let w = n mod 2 ^ 32 in
      [of_nat (w mod 256), of_nat (w div 256 mod 256),
       of_nat (w div 65536 mod 256), of_nat (w div 16777216 mod 256)])"

text \<open>The value of four bytes read as a little-endian \<^verbatim>\<open>uint32\<close>.\<close>

fun get_u32 :: "bytes \<Rightarrow> nat" where
  "get_u32 (b0 # b1 # b2 # b3 # _) =
     unat b0 + 256 * unat b1 + 65536 * unat b2 + 16777216 * unat b3"
| "get_u32 _ = 0"

subsection \<open>Errors\<close>

text \<open>
  One constructor for each error the package returns: the two errors of package
  \<^verbatim>\<open>io\<close> and one per \<^verbatim>\<open>fmt.Errorf\<close> message, carrying the wrapped error where that error
  comes from a read.
\<close>

datatype error =
    EOF
  | ErrUnexpectedEOF
  | InvalidRecordType byte
  | FailedToOpenFile
  | FailedToBuildIndex error
  | KeyNotFound
  | FailedToReadValueLength error
  | FailedToReadValue error
  | FailedToWriteRecord
  | FailedToGetFileStat
  | FailedToWriteDeleteRecord
  | FailedToCreateBackupBeforePolish error
  | FailedToCreateTempFile
  | FailedToWritePolishedRecord
  | FailedToCloseOriginalFile
  | FailedToReplaceOriginalFile
  | FailedToReopenPolishedFile
  | FailedToRebuildIndexAfterPolish error
  | FailedToCreateBackupFile
  | FailedToWriteBackupRecord
  | FailedToOpenSourceFile
  | FailedToCopyFile

subsection \<open>Reading a file\<close>

text \<open>
  Each read takes the bytes of the file and the offset of the handle, and returns its
  result with the new offset.

  \<^verbatim>\<open>binary.Read\<close> of one byte and of a \<^verbatim>\<open>uint32\<close> goes through \<^verbatim>\<open>io.ReadFull\<close>: no byte
  left is \<^verbatim>\<open>io.EOF\<close>, fewer bytes than asked for is \<^verbatim>\<open>io.ErrUnexpectedEOF\<close>.
\<close>

definition read_u8 :: "bytes \<Rightarrow> nat \<Rightarrow> (error + byte) \<times> nat" where
  "read_u8 data pos =
     (if pos < length data then (Inr (data ! pos), pos + 1) else (Inl EOF, pos))"

definition read_u32 :: "bytes \<Rightarrow> nat \<Rightarrow> (error + nat) \<times> nat" where
  "read_u32 data pos =
     (let avail = length data - pos in
      if avail = 0 then (Inl EOF, pos)
      else if avail < 4 then (Inl ErrUnexpectedEOF, pos + avail)
      else (Inr (get_u32 (take 4 (drop pos data))), pos + 4))"

text \<open>
  \<^verbatim>\<open>buf := make([]byte, n); _, err = s.file.Read(buf)\<close>: a single read into a zeroed
  buffer of \<open>n\<close> bytes. An empty buffer reads nothing and succeeds; otherwise no byte
  left is \<^verbatim>\<open>io.EOF\<close>, and a read that gets fewer than \<open>n\<close> bytes succeeds: the source
  drops the count, so the rest of the buffer stays zero.
\<close>

definition file_read :: "nat \<Rightarrow> bytes \<Rightarrow> nat \<Rightarrow> (error + bytes) \<times> nat" where
  "file_read n data pos =
     (let m = min n (length data - pos) in
      if n = 0 then (Inr [], pos)
      else if m = 0 then (Inl EOF, pos)
      else (Inr (take m (drop pos data) @ replicate (n - m) 0), pos + m))"

subsection \<open>Replay: buildIndex\<close>

text \<open>
  The loop of \<^verbatim>\<open>buildIndex\<close>, on the bytes of the file, the offset of the handle and the
  index. It returns the error (if any), the final offset and the index as the loop
  left it: the source updates \<^verbatim>\<open>s.index\<close> in place, also on the way to an error.
\<close>

function buildIndex_loop ::
  "bytes \<Rightarrow> nat \<Rightarrow> (bytes \<rightharpoonup> nat) \<Rightarrow> error option \<times> nat \<times> (bytes \<rightharpoonup> nat)" where
  "buildIndex_loop data startOffset idx =
     (case read_u8 data startOffset of
        (Inl e, p1) \<Rightarrow> if e = EOF then (None, p1, idx) else (Some e, p1, idx)
      | (Inr typeByte, p1) \<Rightarrow>
          (case read_u32 data p1 of
             (Inl e, p2) \<Rightarrow> (Some e, p2, idx)
           | (Inr keyLen, p2) \<Rightarrow>
               (case file_read keyLen data p2 of
                  (Inl e, p3) \<Rightarrow> (Some e, p3, idx)
                | (Inr keyBytes, p3) \<Rightarrow>
                    if typeByte = 0 then
                      (let valLenOffset = startOffset + 1 + 4 + keyLen;
                           idx' = idx(keyBytes \<mapsto> valLenOffset)
                       in case read_u32 data p3 of
                            (Inl e, p4) \<Rightarrow> (Some e, p4, idx')
                          | (Inr valLen, p4) \<Rightarrow> buildIndex_loop data (p4 + valLen) idx')
                    else if typeByte = 1 then
                      buildIndex_loop data p3 (idx(keyBytes := None))
                    else (Some (InvalidRecordType typeByte), p3, idx))))"
  by pat_completeness auto
termination
  by (relation "measure (\<lambda>(data, pos, idx). length data - pos)")
     (auto simp: read_u8_def read_u32_def file_read_def Let_def split: if_splits)

declare buildIndex_loop.simps [simp del]

subsection \<open>The file system, the store and the operating system\<close>

type_synonym fs = "path \<rightharpoonup> bytes"

text \<open>
  The file of an open handle is the file at the handle's path. A path without a file
  reads as empty; no operation below leaves the path of an open handle without one.
\<close>

definition contents :: "fs \<Rightarrow> path \<Rightarrow> bytes" where
  "contents fs p = (case fs p of Some d \<Rightarrow> d | None \<Rightarrow> [])"

record store =
  fname :: path
  fpos :: nat
  index :: "bytes \<rightharpoonup> nat"

text \<open>
  What the operating system answers during one call of an operation: a write either
  stores the whole buffer, or fails after some of its bytes reached the file; the other
  calls succeed or fail.
\<close>

datatype write_outcome = Written | WriteFailed nat

record env =
  write_result :: "bytes \<Rightarrow> write_outcome"
  stat_ok :: bool
  create_ok :: "path \<Rightarrow> bool"
  open_src_ok :: bool
  copy_result :: write_outcome
  close_ok :: bool
  rename_ok :: bool
  reopen_ok :: bool

text \<open>
  \<^verbatim>\<open>f.Write(b)\<close> on a handle opened with \<^verbatim>\<open>O_APPEND\<close>, or on a file just truncated:
  the bytes go to the end of the file. The result is whether the write succeeded.
\<close>

definition file_write :: "write_outcome \<Rightarrow> fs \<Rightarrow> path \<Rightarrow> bytes \<Rightarrow> bool \<times> fs" where
  "file_write out fs p b =
     (case out of
        Written \<Rightarrow> (True, fs(p \<mapsto> contents fs p @ b))
      | WriteFailed n \<Rightarrow> (False, fs(p \<mapsto> contents fs p @ take n b)))"

subsection \<open>Records\<close>

text \<open>
  The Set record, as \<^verbatim>\<open>Set\<close>, \<^verbatim>\<open>Polish\<close> and \<^verbatim>\<open>backupTo\<close> build it: the kind byte 0,
  the key length, the key, the value length and the value. \<^verbatim>\<open>Set\<close> passes
  \<^verbatim>\<open>uint32(len(value))\<close> for the value length, the other two the length they read.
\<close>

definition set_record :: "bytes \<Rightarrow> nat \<Rightarrow> bytes \<Rightarrow> bytes" where
  "set_record key valLen val = [0] @ put_u32 (length key) @ key @ put_u32 valLen @ val"

definition delete_record :: "bytes \<Rightarrow> bytes" where
  "delete_record key = [1] @ put_u32 (length key) @ key"

subsection \<open>Set, Get, Delete\<close>

definition Set :: "env \<Rightarrow> fs \<times> store \<Rightarrow> bytes \<Rightarrow> bytes \<Rightarrow> error option \<times> (fs \<times> store)" where
  "Set env w key val =
     (let (fs, s) = w;
          record = set_record key (length val) val;
          (ok, fs1) = file_write (write_result env record) fs (fname s) record;
          s1 = s\<lparr>fpos := length (contents fs1 (fname s))\<rparr>
      in if \<not> ok then (Some FailedToWriteRecord, (fs1, s1))
         else if \<not> stat_ok env then (Some FailedToGetFileStat, (fs1, s1))
         else
           (let size = length (contents fs1 (fname s));
                startOffset = size - length record;
                valLenOffset = startOffset + 1 + 4 + length key
            in (None, (fs1, s1\<lparr>index := (index s1)(key \<mapsto> valLenOffset)\<rparr>))))"

text \<open>
  The three steps \<^verbatim>\<open>Get\<close>, \<^verbatim>\<open>Polish\<close> and \<^verbatim>\<open>backupTo\<close> share: seek to the offset, read
  the value length, read the value into a buffer of that length.
\<close>

definition read_value :: "bytes \<Rightarrow> nat \<Rightarrow> (error + nat \<times> bytes) \<times> nat" where
  "read_value data offset =
     (case read_u32 data offset of
        (Inl e, p) \<Rightarrow> (Inl (FailedToReadValueLength e), p)
      | (Inr valLen, p) \<Rightarrow>
          (case file_read valLen data p of
             (Inl e, p') \<Rightarrow> (Inl (FailedToReadValue e), p')
           | (Inr val, p') \<Rightarrow> (Inr (valLen, val), p')))"

definition Get :: "fs \<times> store \<Rightarrow> bytes \<Rightarrow> (error + bytes) \<times> (fs \<times> store)" where
  "Get w key =
     (let (fs, s) = w
      in case index s key of
           None \<Rightarrow> (Inl KeyNotFound, (fs, s))
         | Some offset \<Rightarrow>
             (case read_value (contents fs (fname s)) offset of
                (Inl e, p) \<Rightarrow> (Inl e, (fs, s\<lparr>fpos := p\<rparr>))
              | (Inr (valLen, val), p) \<Rightarrow> (Inr val, (fs, s\<lparr>fpos := p\<rparr>))))"

definition Delete :: "env \<Rightarrow> fs \<times> store \<Rightarrow> bytes \<Rightarrow> error option \<times> (fs \<times> store)" where
  "Delete env w key =
     (let (fs, s) = w;
          record = delete_record key;
          (ok, fs1) = file_write (write_result env record) fs (fname s) record;
          s1 = s\<lparr>fpos := length (contents fs1 (fname s))\<rparr>
      in if \<not> ok then (Some FailedToWriteDeleteRecord, (fs1, s1))
         else (None, (fs1, s1\<lparr>index := (index s1)(key := None)\<rparr>)))"

subsection \<open>Opening a store\<close>

text \<open>\<^verbatim>\<open>buildIndex\<close>: seek to offset 0, then the loop, on the index the store holds.\<close>

definition buildIndex :: "fs \<times> store \<Rightarrow> error option \<times> store" where
  "buildIndex w =
     (let (fs, s) = w;
          (err, p, idx) = buildIndex_loop (contents fs (fname s)) 0 (index s)
      in (err, s\<lparr>fpos := p, index := idx\<rparr>))"

text \<open>
  \<^verbatim>\<open>NewStore\<close>: open the file, creating an empty one where there is none, and replay it
  into an empty index. On an error the handle is closed and no store is returned.
\<close>

definition NewStore :: "env \<Rightarrow> fs \<Rightarrow> path \<Rightarrow> (error + store) \<times> fs" where
  "NewStore env fs p =
     (if \<not> create_ok env p then (Inl FailedToOpenFile, fs)
      else
        (let fs1 = (case fs p of None \<Rightarrow> fs(p \<mapsto> []) | Some d \<Rightarrow> fs)
         in case buildIndex (fs1, \<lparr>fname = p, fpos = 0, index = Map.empty\<rparr>) of
              (Some e, s) \<Rightarrow> (Inl (FailedToBuildIndex e), fs1)
            | (None, s) \<Rightarrow> (Inr s, fs1)))"

subsection \<open>Backup and Polish\<close>

text \<open>
  The loop \<^verbatim>\<open>for key, offset := range s.index\<close> of \<^verbatim>\<open>Polish\<close> and of \<^verbatim>\<open>backupTo\<close>: read the
  value of each key through its offset and write a fresh Set record to the target file.
  Go leaves the order of the iteration open; here it is the list \<open>keys\<close>, which is to
  hold every key of the index once (a key outside the index is passed over). The
  two loops differ in the target and in the error of a failed write, \<open>werr\<close>.
\<close>

fun write_live ::
  "env \<Rightarrow> error \<Rightarrow> path \<Rightarrow> fs \<times> store \<Rightarrow> bytes list \<Rightarrow> error option \<times> (fs \<times> store)" where
  "write_live env werr target (fs, s) [] = (None, (fs, s))"
| "write_live env werr target (fs, s) (key # keys) =
     (case index s key of
        None \<Rightarrow> write_live env werr target (fs, s) keys
      | Some offset \<Rightarrow>
          (case read_value (contents fs (fname s)) offset of
             (Inl e, p) \<Rightarrow> (Some e, (fs, s\<lparr>fpos := p\<rparr>))
           | (Inr (valLen, val), p) \<Rightarrow>
               (let record = set_record key valLen val;
                    (ok, fs1) = file_write (write_result env record) fs target record;
                    s1 = s\<lparr>fpos := p\<rparr>
                in if ok then write_live env werr target (fs1, s1) keys
                   else (Some werr, (fs1, s1)))))"

text \<open>
  \<^verbatim>\<open>backupTo\<close>. The polished backup creates or truncates the target and runs the loop.
  The full backup opens the store's file by name, creates or truncates the target and
  copies the one into the other.
\<close>

definition backupTo ::
  "env \<Rightarrow> fs \<times> store \<Rightarrow> bytes list \<Rightarrow> path \<Rightarrow> bool \<Rightarrow> error option \<times> (fs \<times> store)" where
  "backupTo env w keys p polished =
     (let (fs, s) = w
      in if polished then
           (if \<not> create_ok env p then (Some FailedToCreateBackupFile, (fs, s))
            else write_live env FailedToWriteBackupRecord p (fs(p \<mapsto> []), s) keys)
         else
           (if \<not> open_src_ok env \<or> fs (fname s) = None
            then (Some FailedToOpenSourceFile, (fs, s))
            else if \<not> create_ok env p then (Some FailedToCreateBackupFile, (fs, s))
            else
              (let fs1 = fs(p \<mapsto> []);
                   src = contents fs1 (fname s)
               in case copy_result env of
                    Written \<Rightarrow> (None, (fs1(p \<mapsto> src), s))
                  | WriteFailed n \<Rightarrow> (Some FailedToCopyFile, (fs1(p \<mapsto> take n src), s)))))"

definition Backup ::
  "env \<Rightarrow> fs \<times> store \<Rightarrow> bytes list \<Rightarrow> path \<Rightarrow> bool \<Rightarrow> error option \<times> (fs \<times> store)" where
  "Backup env w keys p polished = backupTo env w keys p polished"

text \<open>
  \<^verbatim>\<open>Polish\<close>. The store comes back as \<open>None\<close> where the source returns after it has closed
  the handle, or has lost it in the failed reopen: that store cannot be used any more.
\<close>

definition Polish ::
  "env \<Rightarrow> fs \<times> store \<Rightarrow> bytes list \<Rightarrow> error option \<times> (fs \<times> store option)" where
  "Polish env w keys =
     (let (fs, s) = w;
          origPath = fname s;
          backupPath = origPath @ ''.backup''
      in case backupTo env (fs, s) keys backupPath False of
           (Some e, (fs1, s1)) \<Rightarrow> (Some (FailedToCreateBackupBeforePolish e), (fs1, Some s1))
         | (None, (fs1, s1)) \<Rightarrow>
             (let tempPath = origPath @ ''.tmp''
              in if \<not> create_ok env tempPath
                 then (Some FailedToCreateTempFile, (fs1, Some s1))
                 else
                   (case write_live env FailedToWritePolishedRecord tempPath
                           (fs1(tempPath \<mapsto> []), s1) keys of
                      (Some e, (fs2, s2)) \<Rightarrow> (Some e, (fs2, Some s2))
                    | (None, (fs2, s2)) \<Rightarrow>
                        if \<not> close_ok env then (Some FailedToCloseOriginalFile, (fs2, None))
                        else if \<not> rename_ok env
                        then (Some FailedToReplaceOriginalFile, (fs2, None))
                        else
                          (let fs3 = fs2(origPath := fs2 tempPath, tempPath := None)
                           in if \<not> reopen_ok env
                              then (Some FailedToReopenPolishedFile, (fs3, None))
                              else
                                (case buildIndex (fs3, s2) of
                                   (Some e, s3) \<Rightarrow>
                                     (Some (FailedToRebuildIndexAfterPolish e), (fs3, Some s3))
                                 | (None, s3) \<Rightarrow> (None, (fs3, Some s3)))))))"

text \<open>The errors of \<open>Polish\<close> that come from its steps before the handle is closed.\<close>

fun before_rename :: "error \<Rightarrow> bool" where
  "before_rename (FailedToCreateBackupBeforePolish e) = True"
| "before_rename FailedToCreateTempFile = True"
| "before_rename (FailedToReadValueLength e) = True"
| "before_rename (FailedToReadValue e) = True"
| "before_rename FailedToWritePolishedRecord = True"
| "before_rename e = False"

text \<open>
  The step of the loop for one key fails: the key is in the index, and either the read
  of its value fails or the write of its record does.
\<close>

definition key_step_fails :: "env \<Rightarrow> fs \<times> store \<Rightarrow> bytes \<Rightarrow> bool" where
  "key_step_fails env w key =
     (let (fs, s) = w
      in case index s key of
           None \<Rightarrow> False
         | Some offset \<Rightarrow>
             (case read_value (contents fs (fname s)) offset of
                (Inl e, p) \<Rightarrow> True
              | (Inr (valLen, val), p) \<Rightarrow>
                  write_result env (set_record key valLen val) \<noteq> Written))"

text \<open>The Set record of a key and the value \<open>Get\<close> returns for it; empty where it returns none.\<close>

definition live_record :: "fs \<times> store \<Rightarrow> bytes \<Rightarrow> bytes" where
  "live_record w k =
     (case fst (Get w k) of Inr v \<Rightarrow> set_record k (length v) v | Inl e \<Rightarrow> [])"

text \<open>The value \<open>Get\<close> returns for a key; empty where it returns none.\<close>

definition value_of :: "fs \<times> store \<Rightarrow> bytes \<Rightarrow> bytes" where
  "value_of w k = (case fst (Get w k) of Inr v \<Rightarrow> v | Inl e \<Rightarrow> [])"



subsection \<open>A client: a sequence of Set and Delete calls\<close>

datatype op = SetOp bytes bytes | DeleteOp bytes

fun op_key :: "op \<Rightarrow> bytes" where
  "op_key (SetOp k v) = k"
| "op_key (DeleteOp k) = k"

fun apply_op :: "env \<Rightarrow> fs \<times> store \<Rightarrow> op \<Rightarrow> error option \<times> (fs \<times> store)" where
  "apply_op env w (SetOp k v) = Set env w k v"
| "apply_op env w (DeleteOp k) = Delete env w k"

text \<open>The calls are made in order, whatever each returns; the results are kept.\<close>

fun apply_ops :: "env \<Rightarrow> fs \<times> store \<Rightarrow> op list \<Rightarrow> error option list \<times> (fs \<times> store)" where
  "apply_ops env w [] = ([], w)"
| "apply_ops env w (x # xs) =
     (let (r, w1) = apply_op env w x;
          (rs, w2) = apply_ops env w1 xs
      in (r # rs, w2))"

text \<open>An operating system where every call succeeds, and an empty store on an empty file.\<close>

definition ok_env :: env where
  "ok_env = \<lparr>write_result = (\<lambda>b. Written), stat_ok = True, create_ok = (\<lambda>p. True),
     open_src_ok = True, copy_result = Written, close_ok = True, rename_ok = True,
     reopen_ok = True\<rparr>"

definition empty_store :: "path \<Rightarrow> store" where
  "empty_store p = \<lparr>fname = p, fpos = 0, index = Map.empty\<rparr>"

definition empty_fs :: "path \<Rightarrow> fs" where
  "empty_fs p = Map.empty(p \<mapsto> [])"

text \<open>
  An example: the log of Set \<open>[1] [9]\<close>, Delete \<open>[1]\<close>, Set \<open>[2] [7, 7]\<close>, and the store
  open on it.
\<close>

definition demo_log :: bytes where
  "demo_log = [0, 1, 0, 0, 0, 1, 1, 0, 0, 0, 9,
               1, 1, 0, 0, 0, 1,
               0, 1, 0, 0, 0, 2, 2, 0, 0, 0, 7, 7]"

definition demo_fs :: fs where
  "demo_fs = Map.empty(''db'' \<mapsto> demo_log)"

definition demo_store :: store where
  "demo_store = \<lparr>fname = ''db'', fpos = 29, index = Map.empty([2] \<mapsto> 23)\<rparr>"

text \<open>
  A value is stored at an offset of a file when its length field starts there and the
  value follows it, whole.
\<close>

definition stored_at :: "bytes \<Rightarrow> nat \<Rightarrow> bytes \<Rightarrow> bool" where
  "stored_at data off v \<longleftrightarrow>
     off + 4 + length v \<le> length data \<and>
     take 4 (drop off data) = put_u32 (length v) \<and>
     take (length v) (drop (off + 4) data) = v"

subsection \<open>Logs as sequences of records\<close>

text \<open>
  The record a successful call appends, and the log of a sequence of calls. \<open>replay\<close>
  is the replay of the specification on the records themselves: a Set record that
  starts at offset \<open>S\<close> puts the offset of its value-length field, \<open>S + 1 + 4 + K\<close> for a
  key of \<open>K\<close> bytes, into the index; a Delete record removes its key.
\<close>

fun encode_op :: "op \<Rightarrow> bytes" where
  "encode_op (SetOp k v) = set_record k (length v) v"
| "encode_op (DeleteOp k) = delete_record k"

definition encode_ops :: "op list \<Rightarrow> bytes" where
  "encode_ops xs = concat (map encode_op xs)"

fun replay :: "nat \<Rightarrow> (bytes \<rightharpoonup> nat) \<Rightarrow> op list \<Rightarrow> (bytes \<rightharpoonup> nat)" where
  "replay S idx [] = idx"
| "replay S idx (SetOp k v # xs) =
     replay (S + 1 + 4 + length k + 4 + length v) (idx(k \<mapsto> S + 1 + 4 + length k)) xs"
| "replay S idx (DeleteOp k # xs) = replay (S + 1 + 4 + length k) (idx(k := None)) xs"

fun op_fits :: "op \<Rightarrow> bool" where
  "op_fits (SetOp k v) \<longleftrightarrow> length k < 2 ^ 32 \<and> length v < 2 ^ 32"
| "op_fits (DeleteOp k) \<longleftrightarrow> length k < 2 ^ 32"

text \<open>The Set operations that write the value \<open>f k\<close> for each key \<open>k\<close> of a list.\<close>

definition set_ops :: "(bytes \<Rightarrow> bytes) \<Rightarrow> bytes list \<Rightarrow> op list" where
  "set_ops f keys = map (\<lambda>k. SetOp k (f k)) keys"

text \<open>A store holds a value for a key when its index points at that value, stored whole.\<close>

definition holds :: "fs \<times> store \<Rightarrow> bytes \<Rightarrow> bytes \<Rightarrow> bool" where
  "holds w k v \<longleftrightarrow>
     (\<exists>off. index (snd w) k = Some off \<and> stored_at (contents (fst w) (fname (snd w))) off v)"

section \<open>Properties\<close>

subsection \<open>The length fields\<close>

lemma length_put_u32 [simp]: "length (put_u32 n) = 4"
  by (simp add: put_u32_def Let_def)

lemma le_digits:
  "w = m0 + 256 * a \<Longrightarrow> a = m1 + 256 * b \<Longrightarrow> b = m2 + 256 * c \<Longrightarrow>
   (m0::nat) + 256 * m1 + 65536 * m2 + 16777216 * c = w"
  by simp

lemma get_u32_digits:
  assumes lt: "w < 256 * (256 * (256 * 256))"
  shows "get_u32 [of_nat (w mod 256), of_nat (w div 256 mod 256),
       of_nat (w div 65536 mod 256), of_nat (w div 16777216 mod 256)] = w"
proof -
  have a: "w = w mod 256 + 256 * (w div 256)" by simp
  have b: "w div 256 = w div 256 mod 256 + 256 * (w div 65536)"
    using div_mult2_eq [of w 256 256] by simp
  have c: "w div 65536 = w div 65536 mod 256 + 256 * (w div 16777216)"
    using div_mult2_eq [of w 65536 256] by simp
  have "w div 16777216 < 256"
    using lt by (simp add: div_less_iff_less_mult)
  then have d: "w div 16777216 mod 256 = w div 16777216" by simp
  have "w mod 256 + 256 * (w div 256 mod 256) + 65536 * (w div 65536 mod 256)
      + 16777216 * (w div 16777216 mod 256) = w"
    unfolding d by (rule le_digits [OF a b c])
  then show ?thesis
    using d by (simp add: unat_of_nat)
qed

lemma get_put_u32: "get_u32 (put_u32 n) = n mod 2 ^ 32"
  unfolding put_u32_def Let_def by (rule get_u32_digits) simp

lemma get_u32_less: "get_u32 b < 2 ^ 32"
proof (cases b rule: get_u32.cases)
  case (1 b0 b1 b2 b3 r)
  have "unat b0 < 256" "unat b1 < 256" "unat b2 < 256" "unat b3 < 256"
    using unsigned_less [of b0, where 'a=nat] unsigned_less [of b1, where 'a=nat]
      unsigned_less [of b2, where 'a=nat] unsigned_less [of b3, where 'a=nat]
    by simp_all
  then show ?thesis using 1 by simp
qed simp_all

subsection \<open>Reads inside a file\<close>

lemma read_u8_at: "read_u8 (pre @ b # rest) (length pre) = (Inr b, length pre + 1)"
  by (simp add: read_u8_def)

lemma read_u32_at:
  "read_u32 (pre @ put_u32 n @ rest) (length pre) = (Inr (n mod 2 ^ 32), length pre + 4)"
  by (simp add: read_u32_def get_put_u32)

lemma file_read_at:
  "file_read (length k) (pre @ k @ rest) (length pre) = (Inr k, length pre + length k)"
  by (simp add: file_read_def Let_def)

subsection \<open>Stored values\<close>

lemma read_value_stored:
  assumes "stored_at data off v" and "length v < 2 ^ 32"
  shows "read_value data off = (Inr (length v, v), off + 4 + length v)"
proof -
  from assms(1) have b: "off + 4 + length v \<le> length data"
    and l: "take 4 (drop off data) = put_u32 (length v)"
    and p: "take (length v) (drop (off + 4) data) = v"
    by (simp_all add: stored_at_def)
  have 1: "read_u32 data off = (Inr (length v), off + 4)"
    using b l assms(2) by (simp add: read_u32_def get_put_u32 Let_def)
  have 2: "file_read (length v) data (off + 4) = (Inr v, off + 4 + length v)"
    using b p by (auto simp add: file_read_def Let_def min_def)
  show ?thesis by (simp add: read_value_def 1 2)
qed

lemma stored_at_append: "stored_at data off v \<Longrightarrow> stored_at (data @ x) off v"
  by (simp add: stored_at_def)

lemma stored_at_mid: "stored_at (a @ put_u32 (length v) @ v @ b) (length a) v"
  by (simp add: stored_at_def)

lemma stored_at_record:
  "stored_at (pre @ set_record k (length v) v) (length pre + 5 + length k) v"
proof -
  have "stored_at ((pre @ [0] @ put_u32 (length k) @ k) @ put_u32 (length v) @ v @ [])
     (length (pre @ [0] @ put_u32 (length k) @ k)) v"
    by (rule stored_at_mid)
  then show ?thesis by (simp add: set_record_def add.assoc)
qed

subsection \<open>What Set and Delete do to the file and the index\<close>

lemma contents_upd [simp]: "contents (fs(p \<mapsto> d)) p = d"
  by (simp add: contents_def)

lemma contents_upd_other [simp]: "q \<noteq> p \<Longrightarrow> contents (fs(p \<mapsto> d)) q = contents fs q"
  by (simp add: contents_def)

lemma Set_result:
  "Set env (fs, s) k v = (r, (fs', s')) \<Longrightarrow>
   fname s' = fname s \<and>
   (\<exists>x. fs' = fs(fname s \<mapsto> contents fs (fname s) @ x) \<and>
     (r = None \<longrightarrow> x = set_record k (length v) v)) \<and>
   (if r = None
    then index s' = (index s)(k \<mapsto> length (contents fs (fname s)) + 5 + length k)
    else index s' = index s)"
  by (auto simp: Set_def file_write_def contents_def Let_def
      split: write_outcome.splits if_splits)

lemma Delete_result:
  "Delete env (fs, s) k = (r, (fs', s')) \<Longrightarrow>
   fname s' = fname s \<and>
   (\<exists>x. fs' = fs(fname s \<mapsto> contents fs (fname s) @ x) \<and>
     (r = None \<longrightarrow> x = delete_record k)) \<and>
   (if r = None then index s' = (index s)(k := None) else index s' = index s)"
  by (auto simp: Delete_def file_write_def contents_def Let_def
      split: write_outcome.splits if_splits)

lemma holds_Get: "holds w k v \<Longrightarrow> length v < 2 ^ 32 \<Longrightarrow> fst (Get w k) = Inr v"
  by (cases w) (auto simp: holds_def Get_def read_value_stored)

lemma holds_after_Set:
  assumes "Set env (fs, s) k v = (None, w1)"
  shows "holds w1 k v"
proof -
  obtain fs' s' where w1: "w1 = (fs', s')" by (cases w1)
  from Set_result [OF assms [unfolded w1]] show ?thesis
    by (auto simp: holds_def w1 stored_at_record)
qed

lemma holds_apply_op:
  assumes "holds w k v" and "op_key x \<noteq> k" and "apply_op env w x = (r, w1)"
  shows "holds w1 k v"
proof -
  obtain fs s where w: "w = (fs, s)" by (cases w)
  obtain fs' s' where w1: "w1 = (fs', s')" by (cases w1)
  show ?thesis
  proof (cases x)
    case (SetOp k' v')
    with assms w w1 have "Set env (fs, s) k' v' = (r, (fs', s'))" and "k' \<noteq> k" by auto
    from Set_result [OF this(1)] this(2) assms(1) show ?thesis
      by (auto simp: holds_def w w1 stored_at_append split: if_splits)
  next
    case (DeleteOp k')
    with assms w w1 have "Delete env (fs, s) k' = (r, (fs', s'))" and "k' \<noteq> k" by auto
    from Delete_result [OF this(1)] this(2) assms(1) show ?thesis
      by (auto simp: holds_def w w1 stored_at_append split: if_splits)
  qed
qed

lemma holds_apply_ops:
  "holds w k v \<Longrightarrow> \<forall>x \<in> set xs. op_key x \<noteq> k \<Longrightarrow> apply_ops env w xs = (rs, w2) \<Longrightarrow>
   holds w2 k v"
proof (induction xs arbitrary: w rs)
  case Nil
  then show ?case by simp
next
  case (Cons x xs)
  obtain r w1 where 1: "apply_op env w x = (r, w1)" by (cases "apply_op env w x")
  obtain rs' w2' where 2: "apply_ops env w1 xs = (rs', w2')" by (cases "apply_ops env w1 xs")
  from Cons.prems(3) 1 2 have "w2' = w2" by simp
  moreover have "holds w1 k v"
    using holds_apply_op [OF Cons.prems(1) _ 1] Cons.prems(2) by simp
  ultimately show ?case
    using Cons.IH [of w1 rs'] Cons.prems(2) 2 by simp
qed

subsection \<open>Round trip\<close>

text \<open>
  C1. After a successful \<open>Set k v\<close>, and after any further Set and Delete calls on other
  keys (whether they succeed or fail), \<open>Get k\<close> returns exactly \<open>v\<close>. The key and the
  value are arbitrary byte strings, the empty value included; the value is shorter
  than \<open>2 ^ 32\<close> bytes, the width of the length field.
\<close>

theorem Set_then_Get:
  assumes "Set env (fs, s) k v = (None, w1)"
    and "length v < 2 ^ 32"
    and "\<forall>x \<in> set xs. op_key x \<noteq> k"
    and "apply_ops env' w1 xs = (rs, w2)"
  shows "fst (Get w2 k) = Inr v"
  using holds_Get [OF holds_apply_ops [OF holds_after_Set [OF assms(1)] assms(3) assms(4)]
      assms(2)] .

theorem Set_then_Get_witness:
  "fst (Set ok_env (empty_fs ''db'', empty_store ''db'') [107, 0] []) = None \<and>
   length ([] :: bytes) < 2 ^ 32 \<and>
   op_key (SetOp [1] [0, 7]) \<noteq> [107, 0] \<and> op_key (DeleteOp [2]) \<noteq> [107, 0] \<and>
   fst (Get (snd (apply_ops ok_env
          (snd (Set ok_env (empty_fs ''db'', empty_store ''db'') [107, 0] []))
          [SetOp [1] [0, 7], DeleteOp [2]])) [107, 0]) = Inr []"
proof -
  let ?w0 = "(empty_fs ''db'', empty_store ''db'')"
  let ?xs = "[SetOp [1] [0, 7], DeleteOp [2]]"
  have 0: "fst (Set ok_env ?w0 [107, 0] []) = None"
    by (simp add: Set_def file_write_def ok_env_def Let_def)
  then have 1: "Set ok_env ?w0 [107, 0] [] = (None, snd (Set ok_env ?w0 [107, 0] []))"
    by (metis prod.collapse)
  have 2: "length ([] :: bytes) < 2 ^ 32" by simp
  have 3: "\<forall>x \<in> set ?xs. op_key x \<noteq> [107, 0]" by simp
  have 4: "apply_ops ok_env (snd (Set ok_env ?w0 [107, 0] [])) ?xs =
      (fst (apply_ops ok_env (snd (Set ok_env ?w0 [107, 0] [])) ?xs),
       snd (apply_ops ok_env (snd (Set ok_env ?w0 [107, 0] [])) ?xs))"
    by simp
  from Set_then_Get [OF 1 2 3 4] 0 show ?thesis by simp
qed

subsection \<open>Delete\<close>

text \<open>
  C6. In every state of the store, whether the key is in the index or not (so also
  right after a Set of that key, and for a key never set), a Delete whose append
  succeeds returns no error, has appended the tombstone record to the log, has removed
  the key from the index, and a Get of the key then fails with key-not-found.
\<close>

theorem Delete_semantics:
  assumes "write_result env (delete_record k) = Written"
  shows "\<exists>fs' s'. Delete env (fs, s) k = (None, (fs', s')) \<and>
     contents fs' (fname s') = contents fs (fname s) @ delete_record k \<and>
     index s' = (index s)(k := None) \<and>
     fst (Get (fs', s') k) = Inl KeyNotFound"
  using assms by (simp add: Delete_def file_write_def Let_def Get_def)

theorem Delete_semantics_witness:
  "write_result ok_env (delete_record [7]) = Written \<and>
   (\<exists>fs' s'. Delete ok_env (empty_fs ''db'', empty_store ''db'') [7] = (None, (fs', s')) \<and>
     contents fs' (fname s') =
       contents (empty_fs ''db'') (fname (empty_store ''db'')) @ delete_record [7] \<and>
     index s' = (index (empty_store ''db''))([7] := None) \<and>
     fst (Get (fs', s') [7]) = Inl KeyNotFound)"
proof -
  have 1: "write_result ok_env (delete_record [7]) = Written"
    by (simp add: ok_env_def)
  from Delete_semantics [OF 1, of "empty_fs ''db''" "empty_store ''db''"] 1
  show ?thesis by simp
qed

subsection \<open>A failed append\<close>

text \<open>
  C7. When the append of \<open>Set\<close> fails, \<open>Set\<close> returns its write error and the index
  is the index before the call, for every key.
\<close>

theorem Set_write_failure:
  assumes "write_result env (set_record k (length v) v) = WriteFailed n"
  shows "fst (Set env (fs, s) k v) = Some FailedToWriteRecord \<and>
     index (snd (snd (Set env (fs, s) k v))) = index s"
  using assms by (simp add: Set_def file_write_def Let_def)

theorem Set_write_failure_witness:
  "write_result (ok_env\<lparr>write_result := (\<lambda>b. WriteFailed 3)\<rparr>) (set_record [7] (length [1, 2 :: byte]) [1, 2])
     = WriteFailed 3 \<and>
   fst (Set (ok_env\<lparr>write_result := (\<lambda>b. WriteFailed 3)\<rparr>)
     (empty_fs ''db'', empty_store ''db'') [7] [1, 2]) = Some FailedToWriteRecord \<and>
   index (snd (snd (Set (ok_env\<lparr>write_result := (\<lambda>b. WriteFailed 3)\<rparr>)
     (empty_fs ''db'', empty_store ''db'') [7] [1, 2]))) = index (empty_store ''db'')"
proof -
  let ?env = "ok_env\<lparr>write_result := (\<lambda>b. WriteFailed 3)\<rparr>"
  have 1: "write_result ?env (set_record [7] (length [1, 2 :: byte]) [1, 2]) = WriteFailed 3"
    by simp
  from Set_write_failure [OF 1, of "empty_fs ''db''" "empty_store ''db''"] 1
  show ?thesis by simp
qed

subsection \<open>Get changes neither the index nor the files\<close>

text \<open>
  C10. Whatever \<open>Get\<close> returns (a value, key-not-found or a read error), the file system
  after the call is the file system before it, byte for byte, and so are the index and
  the name of the store's file; only the read offset of the handle moves.
\<close>

theorem Get_frame:
  "fst (snd (Get (fs, s) k)) = fs \<and> index (snd (snd (Get (fs, s) k))) = index s
   \<and> fname (snd (snd (Get (fs, s) k))) = fname s"
  by (simp add: Get_def split: option.splits sum.splits prod.splits)

subsection \<open>Replay of a well-formed log\<close>

lemma read_u8_in:
  "data = a @ b # r \<Longrightarrow> p = length a \<Longrightarrow> read_u8 data p = (Inr b, p + 1)"
  by (simp add: read_u8_def)

lemma read_u32_in:
  "data = a @ put_u32 n @ r \<Longrightarrow> p = length a \<Longrightarrow> n < 2 ^ 32 \<Longrightarrow>
   read_u32 data p = (Inr n, p + 4)"
  by (simp add: read_u32_def get_put_u32)

lemma file_read_in:
  "data = a @ k @ r \<Longrightarrow> p = length a \<Longrightarrow> n = length k \<Longrightarrow>
   file_read n data p = (Inr k, p + n)"
  by (simp add: file_read_def Let_def)

lemma buildIndex_loop_end:
  "length data \<le> p \<Longrightarrow> buildIndex_loop data p idx = (None, p, idx)"
  by (subst buildIndex_loop.simps) (simp add: read_u8_def)

lemma buildIndex_loop_Set:
  assumes k: "length k < 2 ^ 32" and v: "length v < 2 ^ 32"
    and data: "data = pre @ set_record k (length v) v @ rest"
  shows "buildIndex_loop data (length pre) idx =
     buildIndex_loop data (length pre + 1 + 4 + length k + 4 + length v)
       (idx(k \<mapsto> length pre + 1 + 4 + length k))"
proof -
  have r1: "read_u8 data (length pre) = (Inr 0, length pre + 1)"
    by (rule read_u8_in [where a = pre]) (simp_all add: data set_record_def)
  have r2: "read_u32 data (length pre + 1) = (Inr (length k), length pre + 1 + 4)"
    by (rule read_u32_in [where a = "pre @ [0]"]) (use k in \<open>simp_all add: data set_record_def\<close>)
  have r3: "file_read (length k) data (length pre + 1 + 4) =
      (Inr k, length pre + 1 + 4 + length k)"
    by (rule file_read_in [where a = "pre @ [0] @ put_u32 (length k)"])
      (simp_all add: data set_record_def)
  have r4: "read_u32 data (length pre + 1 + 4 + length k) =
      (Inr (length v), length pre + 1 + 4 + length k + 4)"
    by (rule read_u32_in [where a = "pre @ [0] @ put_u32 (length k) @ k"])
      (use v in \<open>simp_all add: data set_record_def\<close>)
  show ?thesis
    by (subst buildIndex_loop.simps)
      (simp only: r1 r2 r3 r4 prod.case sum.case Let_def if_True simp_thms)
qed

lemma buildIndex_loop_Delete:
  assumes k: "length k < 2 ^ 32"
    and data: "data = pre @ delete_record k @ rest"
  shows "buildIndex_loop data (length pre) idx =
     buildIndex_loop data (length pre + 1 + 4 + length k) (idx(k := None))"
proof -
  have r1: "read_u8 data (length pre) = (Inr 1, length pre + 1)"
    by (rule read_u8_in [where a = pre]) (simp_all add: data delete_record_def)
  have r2: "read_u32 data (length pre + 1) = (Inr (length k), length pre + 1 + 4)"
    by (rule read_u32_in [where a = "pre @ [1]"]) (use k in \<open>simp_all add: data delete_record_def\<close>)
  have r3: "file_read (length k) data (length pre + 1 + 4) =
      (Inr k, length pre + 1 + 4 + length k)"
    by (rule file_read_in [where a = "pre @ [1] @ put_u32 (length k)"])
      (simp_all add: data delete_record_def)
  have ne: "(1 :: byte) \<noteq> 0" by simp
  show ?thesis
    by (subst buildIndex_loop.simps)
      (simp only: r1 r2 r3 ne prod.case sum.case Let_def if_True if_False simp_thms)
qed

lemma length_encode_op:
  "length (encode_op (SetOp k v)) = 1 + 4 + length k + 4 + length v"
  "length (encode_op (DeleteOp k)) = 1 + 4 + length k"
  by (simp_all add: set_record_def delete_record_def)

lemma buildIndex_loop_ops_rest:
  "\<forall>x \<in> set xs. op_fits x \<Longrightarrow>
   buildIndex_loop (pre @ encode_ops xs @ rest) (length pre) idx =
   buildIndex_loop (pre @ encode_ops xs @ rest) (length pre + length (encode_ops xs))
     (replay (length pre) idx xs)"
proof (induction xs arbitrary: pre idx)
  case Nil
  then show ?case by (simp add: encode_ops_def)
next
  case (Cons x xs)
  have e: "pre @ encode_ops (x # xs) @ rest = (pre @ encode_op x) @ encode_ops xs @ rest"
    by (simp add: encode_ops_def)
  from Cons.prems have fits: "\<forall>x \<in> set xs. op_fits x" by simp
  note IH = Cons.IH [OF fits, of "pre @ encode_op x"]
  show ?case
  proof (cases x)
    case (SetOp k v)
    with Cons.prems have k: "length k < 2 ^ 32" and v: "length v < 2 ^ 32" by simp_all
    have d: "pre @ encode_ops (x # xs) @ rest =
        pre @ set_record k (length v) v @ encode_ops xs @ rest"
      by (simp add: encode_ops_def SetOp)
    have l: "length pre + 1 + 4 + length k + 4 + length v = length (pre @ encode_op x)"
      by (simp add: SetOp set_record_def)
    show ?thesis
      unfolding buildIndex_loop_Set [OF k v d] l
      unfolding e IH
      by (simp add: SetOp l [symmetric] encode_ops_def set_record_def ac_simps)
  next
    case (DeleteOp k)
    with Cons.prems have k: "length k < 2 ^ 32" by simp
    have d: "pre @ encode_ops (x # xs) @ rest = pre @ delete_record k @ encode_ops xs @ rest"
      by (simp add: encode_ops_def DeleteOp)
    have l: "length pre + 1 + 4 + length k = length (pre @ encode_op x)"
      by (simp add: DeleteOp delete_record_def)
    show ?thesis
      unfolding buildIndex_loop_Delete [OF k d] l
      unfolding e IH
      by (simp add: DeleteOp l [symmetric] encode_ops_def delete_record_def ac_simps)
  qed
qed

lemma buildIndex_loop_ops:
  assumes "\<forall>x \<in> set xs. op_fits x"
  shows "buildIndex_loop (pre @ encode_ops xs) (length pre) idx =
     (None, length pre + length (encode_ops xs), replay (length pre) idx xs)"
  using buildIndex_loop_ops_rest [OF assms, of pre "[]" idx]
  by (simp add: buildIndex_loop_end)

lemma length_set_record [simp]: "length (set_record k n v) = 9 + length k + length v"
  by (simp add: set_record_def)

lemma length_delete_record [simp]: "length (delete_record k) = 5 + length k"
  by (simp add: delete_record_def)

lemma Set_None:
  "Set env (fs, s) k v = (None, (fs', s')) \<Longrightarrow>
   fs' = fs(fname s \<mapsto> contents fs (fname s) @ set_record k (length v) v) \<and>
   fname s' = fname s \<and>
   index s' = (index s)(k \<mapsto> length (contents fs (fname s)) + 1 + 4 + length k)"
  by (auto simp: Set_def file_write_def Let_def set_record_def
      split: write_outcome.splits if_splits)

lemma Delete_None:
  "Delete env (fs, s) k = (None, (fs', s')) \<Longrightarrow>
   fs' = fs(fname s \<mapsto> contents fs (fname s) @ delete_record k) \<and>
   fname s' = fname s \<and>
   index s' = (index s)(k := None)"
  by (auto simp: Delete_def file_write_def Let_def
      split: write_outcome.splits if_splits)

lemma apply_ops_log:
  "apply_ops env (fs, s) xs = (rs, (fs', s')) \<Longrightarrow> set rs \<subseteq> {None} \<Longrightarrow>
   fname s' = fname s \<and>
   (\<forall>q. q \<noteq> fname s \<longrightarrow> fs' q = fs q) \<and>
   contents fs' (fname s) = contents fs (fname s) @ encode_ops xs \<and>
   index s' = replay (length (contents fs (fname s))) (index s) xs"
proof (induction xs arbitrary: fs s rs)
  case Nil
  then show ?case by (simp add: encode_ops_def)
next
  case (Cons x xs)
  obtain r fs1 s1 where 1: "apply_op env (fs, s) x = (r, (fs1, s1))"
    by (metis prod.exhaust)
  obtain rs1 w2 where 2: "apply_ops env (fs1, s1) xs = (rs1, w2)"
    by (metis prod.exhaust)
  from Cons.prems 1 2 have rs: "rs = r # rs1" and w2: "w2 = (fs', s')" by simp_all
  with Cons.prems have r: "r = None" and rs1: "set rs1 \<subseteq> {None}" by simp_all
  note IH = Cons.IH [OF 2 [unfolded w2] rs1]
  have step: "fname s1 = fname s \<and>
      fs1 = fs(fname s \<mapsto> contents fs (fname s) @ encode_op x) \<and>
      replay (length (contents fs (fname s))) (index s) (x # xs) =
      replay (length (contents fs (fname s) @ encode_op x)) (index s1) xs"
  proof (cases x)
    case (SetOp k v)
    with 1 r have "Set env (fs, s) k v = (None, (fs1, s1))" by simp
    from Set_None [OF this]
    have a: "fs1 = fs(fname s \<mapsto> contents fs (fname s) @ set_record k (length v) v)"
      and b: "fname s1 = fname s"
      and c: "index s1 = (index s)(k \<mapsto> length (contents fs (fname s)) + 1 + 4 + length k)"
      by blast+
    have n: "length (contents fs (fname s) @ encode_op x) =
        length (contents fs (fname s)) + 1 + 4 + length k + 4 + length v"
      by (simp add: SetOp)
    show ?thesis
      unfolding n c unfolding SetOp replay.simps using a b by simp
  next
    case (DeleteOp k)
    with 1 r have "Delete env (fs, s) k = (None, (fs1, s1))" by simp
    from Delete_None [OF this]
    have a: "fs1 = fs(fname s \<mapsto> contents fs (fname s) @ delete_record k)"
      and b: "fname s1 = fname s"
      and c: "index s1 = (index s)(k := None)"
      by blast+
    have n: "length (contents fs (fname s) @ encode_op x) =
        length (contents fs (fname s)) + 1 + 4 + length k"
      by (simp add: DeleteOp)
    show ?thesis
      unfolding n c unfolding DeleteOp replay.simps using a b by simp
  qed
  then have s1: "fname s1 = fname s"
    and s2: "fs1 = fs(fname s \<mapsto> contents fs (fname s) @ encode_op x)"
    and s3: "replay (length (contents fs (fname s))) (index s) (x # xs) =
      replay (length (contents fs (fname s) @ encode_op x)) (index s1) xs"
    by blast+
  have c1: "contents fs1 (fname s) = contents fs (fname s) @ encode_op x"
    by (simp add: s2)
  from IH have i1: "fname s' = fname s"
    and i2: "\<forall>q. q \<noteq> fname s \<longrightarrow> fs' q = fs1 q"
    and i3: "contents fs' (fname s) = (contents fs (fname s) @ encode_op x) @ encode_ops xs"
    and i4: "index s' = replay (length (contents fs (fname s) @ encode_op x)) (index s1) xs"
    unfolding s1 c1 by blast+
  have "\<forall>q. q \<noteq> fname s \<longrightarrow> fs' q = fs q"
    using i2 by (simp add: s2)
  moreover have "contents fs' (fname s) = contents fs (fname s) @ encode_ops (x # xs)"
    using i3 by (simp add: encode_ops_def)
  ultimately show ?case
    using i1 i4 unfolding s3 by blast
qed

text \<open>
  C2. Take any sequence of Set and Delete calls on an empty store over an empty file,
  all successful, with keys and values shorter than \<open>2 ^ 32\<close> bytes. The file is then
  the concatenation of the records of the calls; the loop of \<open>buildIndex\<close>, run on it
  from offset 0 with an empty index, ends without error at the end of the file with
  exactly the index the store holds; and that index is the replay of the records: for
  each key whose last record is a Set record, the offset of the value-length field of
  that record.
\<close>

theorem log_replay_yields_index:
  assumes "apply_ops env (empty_fs p, empty_store p) xs = (rs, (fs, s))"
    and "set rs \<subseteq> {None}"
    and "\<forall>x \<in> set xs. op_fits x"
  shows "contents fs (fname s) = encode_ops xs \<and>
     buildIndex_loop (contents fs (fname s)) 0 Map.empty =
       (None, length (contents fs (fname s)), index s) \<and>
     index s = replay 0 Map.empty xs"
proof -
  from apply_ops_log [OF assms(1,2)]
  have c: "contents fs (fname s) = encode_ops xs" and i: "index s = replay 0 Map.empty xs"
    by (simp_all add: empty_fs_def empty_store_def)
  from buildIndex_loop_ops [OF assms(3), of "[]" Map.empty] c i show ?thesis by simp
qed

theorem log_replay_yields_index_witness:
  "contents (fst (snd (apply_ops ok_env (empty_fs ''db'', empty_store ''db'')
       [SetOp [1] [9], DeleteOp [1], SetOp [2] []])))
     (fname (snd (snd (apply_ops ok_env (empty_fs ''db'', empty_store ''db'')
       [SetOp [1] [9], DeleteOp [1], SetOp [2] []])))) =
     encode_ops [SetOp [1] [9], DeleteOp [1], SetOp [2] []] \<and>
   index (snd (snd (apply_ops ok_env (empty_fs ''db'', empty_store ''db'')
       [SetOp [1] [9], DeleteOp [1], SetOp [2] []]))) =
     replay 0 Map.empty [SetOp [1] [9], DeleteOp [1], SetOp [2] []]"
proof -
  let ?xs = "[SetOp [1] [9], DeleteOp [1], SetOp [2] []]"
  let ?r = "apply_ops ok_env (empty_fs ''db'', empty_store ''db'') ?xs"
  have 1: "?r = (fst ?r, (fst (snd ?r), snd (snd ?r)))" by simp
  have 2: "set (fst ?r) \<subseteq> {None}"
    by (simp add: Set_def Delete_def file_write_def ok_env_def Let_def)
  have 3: "\<forall>x \<in> set ?xs. op_fits x" by simp
  from log_replay_yields_index [OF 1 2 3] show ?thesis by blast
qed

subsection \<open>A record of unknown kind\<close>

lemma buildIndex_loop_bad_kind:
  assumes "b \<noteq> 0" and "b \<noteq> 1"
  shows "fst (buildIndex_loop (pre @ b # rest) (length pre) idx) =
     Some (if rest = [] then EOF
           else if length rest < 4 then ErrUnexpectedEOF
           else if get_u32 (take 4 rest) \<noteq> 0 \<and> length rest = 4 then EOF
           else InvalidRecordType b)"
  using assms
  by (subst buildIndex_loop.simps)
    (auto simp: read_u8_def read_u32_def file_read_def Let_def)

text \<open>
  C9, as the code has it. When the records of a log are followed by a byte \<open>b\<close> other
  than 0 and 1 where the next record starts, replay fails. The loop reads the key
  length and the key before it looks at the kind: when those reads succeed the error is
  ``invalid record type'', and it carries the kind byte \<open>b\<close>, not an offset; when the file
  ends first, the error is the end-of-file error of the read that ran out of bytes.
\<close>

theorem invalid_kind_fails:
  assumes "\<forall>x \<in> set xs. op_fits x" and "b \<noteq> 0" and "b \<noteq> 1"
  shows "fst (buildIndex_loop (encode_ops xs @ b # rest) 0 idx) =
     Some (if rest = [] then EOF
           else if length rest < 4 then ErrUnexpectedEOF
           else if get_u32 (take 4 rest) \<noteq> 0 \<and> length rest = 4 then EOF
           else InvalidRecordType b)"
  using buildIndex_loop_ops_rest [OF assms(1), of "[]" "b # rest" idx]
    buildIndex_loop_bad_kind [OF assms(2,3), of "encode_ops xs" rest "replay 0 idx xs"]
  by simp

theorem invalid_kind_fails_witness:
  "fst (buildIndex_loop (encode_ops [SetOp [1] [9]] @ 7 # [0, 0, 0, 0, 5]) 0 Map.empty) =
     Some (InvalidRecordType 7)"
proof -
  have 1: "\<forall>x \<in> set [SetOp [1] [9]]. op_fits x" by simp
  have 2: "(7 :: byte) \<noteq> 0" and 3: "(7 :: byte) \<noteq> 1" by simp_all
  from invalid_kind_fails [OF 1 2 3, of "[0, 0, 0, 0, 5]" Map.empty]
  show ?thesis by simp
qed

text \<open>
  The error for a record of kind 2 at offset 0 and the error for a record of kind 2 at
  offset 5 are the same value: the error does not tell the offset. And a kind byte 2
  at the very end of the file gives the plain end-of-file error.
\<close>

theorem invalid_kind_error_without_offset:
  "fst (buildIndex_loop [2, 0, 0, 0, 0] 0 Map.empty) = Some (InvalidRecordType 2) \<and>
   fst (buildIndex_loop [1, 0, 0, 0, 0, 2, 0, 0, 0, 0] 0 Map.empty) =
     Some (InvalidRecordType 2) \<and>
   fst (buildIndex_loop [2] 0 Map.empty) = Some EOF"
  by (simp add: buildIndex_loop.simps read_u8_def read_u32_def file_read_def Let_def)

subsection \<open>A log cut inside a record\<close>

text \<open>
  C3 asks that opening a log cut inside a record fails. Two logs where it does not.
  The first is the Set record of key \<open>[107]\<close> with a value of two bytes, cut after the
  first value byte: the loop skips the value with a seek, which goes past the end of the
  file without an error, and the next read of a kind byte sees a clean end of file. The
  second is a complete Set record of key \<open>[107, 1]\<close> followed by the Delete record of the
  same key, cut after the first byte of the key: the read of the key gets one byte of
  two and succeeds, the key removed is \<open>[107, 0]\<close>, and \<open>[107, 1]\<close> stays in the index.
\<close>

theorem truncated_log_opens:
  "NewStore ok_env (Map.empty(''db'' \<mapsto> [0, 1, 0, 0, 0, 107, 2, 0, 0, 0, 118])) ''db'' =
     (Inr \<lparr>fname = ''db'', fpos = 12, index = Map.empty([107] \<mapsto> 6)\<rparr>,
      Map.empty(''db'' \<mapsto> [0, 1, 0, 0, 0, 107, 2, 0, 0, 0, 118])) \<and>
   NewStore ok_env
     (Map.empty(''db'' \<mapsto> [0, 2, 0, 0, 0, 107, 1, 1, 0, 0, 0, 118, 1, 2, 0, 0, 0, 107])) ''db'' =
     (Inr \<lparr>fname = ''db'', fpos = 18, index = Map.empty([107, 1] \<mapsto> 7)\<rparr>,
      Map.empty(''db'' \<mapsto> [0, 2, 0, 0, 0, 107, 1, 1, 0, 0, 0, 118, 1, 2, 0, 0, 0, 107]))"
  by (simp add: NewStore_def buildIndex_def ok_env_def contents_def buildIndex_loop.simps
      read_u8_def read_u32_def file_read_def Let_def)

subsection \<open>The loops of Polish and backupTo leave the store's file alone\<close>

lemma file_write_other:
  "file_write out fs p b = (ok, fs') \<Longrightarrow> q \<noteq> p \<Longrightarrow> fs' q = fs q"
  by (auto simp: file_write_def split: write_outcome.splits)

lemma write_live_frame:
  "write_live env werr target (fs, s) keys = (r, (fs', s')) \<Longrightarrow>
   (\<forall>q. q \<noteq> target \<longrightarrow> fs' q = fs q) \<and> index s' = index s \<and> fname s' = fname s"
proof (induction keys arbitrary: fs s)
  case Nil
  then show ?case by simp
next
  case (Cons key keys)
  show ?case
  proof (cases "index s key")
    case None
    with Cons show ?thesis by simp
  next
    case (Some offset)
    obtain res p where rv: "read_value (contents fs (fname s)) offset = (res, p)"
      by (cases "read_value (contents fs (fname s)) offset")
    show ?thesis
    proof (cases res)
      case (Inl e)
      with Cons.prems Some rv show ?thesis by auto
    next
      case (Inr vv)
      obtain valLen val where vv: "vv = (valLen, val)" by (cases vv)
      obtain ok fs1 where fw: "file_write (write_result env (set_record key valLen val)) fs
          target (set_record key valLen val) = (ok, fs1)"
        by (metis prod.exhaust)
      show ?thesis
      proof (cases ok)
        case True
        with Cons.prems Some rv Inr vv fw
        have "write_live env werr target (fs1, s\<lparr>fpos := p\<rparr>) keys = (r, (fs', s'))"
          by simp
        from Cons.IH [OF this] file_write_other [OF fw] show ?thesis by simp
      next
        case False
        with Cons.prems Some rv Inr vv fw file_write_other [OF fw] show ?thesis by auto
      qed
    qed
  qed
qed

lemma backupTo_frame:
  "backupTo env (fs, s) keys p polished = (r, (fs', s')) \<Longrightarrow>
   (\<forall>q. q \<noteq> p \<longrightarrow> fs' q = fs q) \<and> index s' = index s \<and> fname s' = fname s"
proof (cases polished)
  case True
  assume a: "backupTo env (fs, s) keys p polished = (r, (fs', s'))"
  show ?thesis
  proof (cases "create_ok env p")
    case c: True
    with a True have "write_live env FailedToWriteBackupRecord p (fs(p \<mapsto> []), s) keys
        = (r, (fs', s'))"
      by (simp add: backupTo_def)
    from write_live_frame [OF this] show ?thesis by simp
  next
    case False
    with a True show ?thesis by (simp add: backupTo_def)
  qed
next
  case False
  assume "backupTo env (fs, s) keys p polished = (r, (fs', s'))"
  with False show ?thesis
    by (auto simp: backupTo_def Let_def split: if_splits write_outcome.splits)
qed

lemma Get_cong:
  "contents fs' (fname s') = contents fs (fname s) \<Longrightarrow> index s' = index s \<Longrightarrow>
   fst (Get (fs', s') k) = fst (Get (fs, s) k)"
  by (simp add: Get_def split: option.splits sum.splits prod.splits)

text \<open>
  An error of \<open>Polish\<close> from a step before the handle is closed comes with the
  store's file, the handle and the index as they were.
\<close>

lemma Polish_early_error_frame:
  assumes "Polish env (fs, s) keys = (Some e, (fs', r))" and "before_rename e"
  shows "fs' (fname s) = fs (fname s) \<and>
     (\<exists>s'. r = Some s' \<and> fname s' = fname s \<and> index s' = index s \<and>
        (\<forall>k. fst (Get (fs', s') k) = fst (Get (fs, s) k)))"
proof -
  let ?b = "fname s @ ''.backup''" and ?t = "fname s @ ''.tmp''"
  have nb: "fname s \<noteq> ?b" and nt: "fname s \<noteq> ?t" by simp_all
  obtain rb fs1 s1 where b: "backupTo env (fs, s) keys ?b False = (rb, (fs1, s1))"
    by (metis prod.exhaust)
  from backupTo_frame [OF b] nb
  have f1: "fs1 (fname s) = fs (fname s)" and i1: "index s1 = index s"
    and n1: "fname s1 = fname s" by auto
  obtain rw fs2 s2 where w: "write_live env FailedToWritePolishedRecord ?t
      (fs1(?t \<mapsto> []), s1) keys = (rw, (fs2, s2))"
    by (metis prod.exhaust)
  from write_live_frame [OF w] nt
  have f2: "fs2 (fname s) = fs1 (fname s)" and i2: "index s2 = index s1"
    and n2: "fname s2 = fname s1" by auto
  have "fs' (fname s) = fs (fname s) \<and>
     (\<exists>s'. r = Some s' \<and> fname s' = fname s \<and> index s' = index s)"
    using assms b w f1 i1 n1 f2 i2 n2
    by (auto simp: Polish_def Let_def split: option.splits if_splits prod.splits)
  then obtain s' where r: "r = Some s'" and f: "fs' (fname s) = fs (fname s)"
    and n: "fname s' = fname s" and i: "index s' = index s" by blast
  have "contents fs' (fname s') = contents fs (fname s)"
    by (simp add: contents_def f n)
  from Get_cong [OF this i] r f n i show ?thesis by blast
qed

subsection \<open>A failing step of Polish\<close>

lemma read_value_Inl: "read_value data off = (Inl e, p) \<Longrightarrow> before_rename e"
  by (auto simp: read_value_def split: prod.splits sum.splits)

lemma key_step_fails_cong:
  "contents fs' (fname s') = contents fs (fname s) \<Longrightarrow> index s' = index s \<Longrightarrow>
   key_step_fails env (fs', s') k = key_step_fails env (fs, s) k"
  by (simp add: key_step_fails_def split: option.splits)

lemma write_live_fails:
  "\<exists>k \<in> set keys. key_step_fails env (fs, s) k \<Longrightarrow> target \<noteq> fname s \<Longrightarrow>
   \<exists>e w'. write_live env FailedToWritePolishedRecord target (fs, s) keys = (Some e, w') \<and>
     before_rename e"
proof (induction keys arbitrary: fs s)
  case Nil
  then show ?case by simp
next
  case (Cons key keys)
  show ?case
  proof (cases "index s key")
    case None
    then have "\<not> key_step_fails env (fs, s) key" by (simp add: key_step_fails_def)
    with Cons.prems(1) have "\<exists>k \<in> set keys. key_step_fails env (fs, s) k" by auto
    from Cons.IH [OF this Cons.prems(2)] None show ?thesis by simp
  next
    case (Some offset)
    obtain res p where rv: "read_value (contents fs (fname s)) offset = (res, p)"
      by (cases "read_value (contents fs (fname s)) offset")
    show ?thesis
    proof (cases res)
      case (Inl e)
      from read_value_Inl [OF rv [unfolded Inl]] Some rv Inl show ?thesis by simp
    next
      case (Inr nv)
      obtain valLen val where nv: "nv = (valLen, val)" by (cases nv)
      note rv' = rv [unfolded Inr nv]
      let ?rec = "set_record key valLen val"
      show ?thesis
      proof (cases "write_result env ?rec")
        case (WriteFailed n)
        with Some rv' show ?thesis by (simp add: file_write_def)
      next
        case Written
        let ?fs1 = "fs(target \<mapsto> contents fs target @ ?rec)" and ?s1 = "s\<lparr>fpos := p\<rparr>"
        have step: "write_live env FailedToWritePolishedRecord target (fs, s) (key # keys) =
            write_live env FailedToWritePolishedRecord target (?fs1, ?s1) keys"
          using Some rv' Written by (simp add: file_write_def)
        from Some rv' Written have "\<not> key_step_fails env (fs, s) key"
          by (simp add: key_step_fails_def split: option.splits)
        with Cons.prems(1) have ex: "\<exists>k \<in> set keys. key_step_fails env (fs, s) k" by auto
        have c: "contents ?fs1 (fname ?s1) = contents fs (fname s)"
          using Cons.prems(2) by (simp add: contents_def)
        have "\<And>k. key_step_fails env (?fs1, ?s1) k = key_step_fails env (fs, s) k"
          by (rule key_step_fails_cong [OF c]) simp
        with ex have ex1: "\<exists>k \<in> set keys. key_step_fails env (?fs1, ?s1) k" by simp
        have t1: "target \<noteq> fname ?s1" using Cons.prems(2) by simp
        have "\<exists>e w'. write_live env FailedToWritePolishedRecord target (?fs1, ?s1) keys =
            (Some e, w') \<and> before_rename e"
          by (rule Cons.IH [where fs = "?fs1" and s = "?s1", OF ex1 t1])
        then show ?thesis unfolding step .
      qed
    qed
  qed
qed

lemma backupTo_full_None:
  "fst (backupTo env (fs, s) keys p False) = None \<longleftrightarrow>
   open_src_ok env \<and> fs (fname s) \<noteq> None \<and> create_ok env p \<and> copy_result env = Written"
  by (auto simp: backupTo_def Let_def split: write_outcome.splits)

text \<open>
  C8. Let a step of \<open>Polish\<close> before the rename fail: the backup copy (the store's file
  cannot be opened by name, the backup file cannot be created, or the copy fails), the
  creation of the temporary file, or, for some key of the loop, the read of its value
  or the write of its record to the temporary file. Then \<open>Polish\<close> returns an error,
  the error of such a step; the store's file holds the bytes it held; and the store
  comes back with its handle open on the same file and with the same index, so that
  every \<open>Get\<close> answers as before.
\<close>

theorem Polish_failure_before_rename:
  assumes "\<not> open_src_ok env \<or> fs (fname s) = None \<or>
      \<not> create_ok env (fname s @ ''.backup'') \<or> copy_result env \<noteq> Written \<or>
      \<not> create_ok env (fname s @ ''.tmp'') \<or>
      (\<exists>k \<in> set keys. key_step_fails env (fs, s) k)"
  shows "\<exists>e fs' s'. Polish env (fs, s) keys = (Some e, (fs', Some s')) \<and> before_rename e \<and>
     fs' (fname s) = fs (fname s) \<and> fname s' = fname s \<and> index s' = index s \<and>
     (\<forall>k. fst (Get (fs', s') k) = fst (Get (fs, s) k))"
proof -
  let ?b = "fname s @ ''.backup''" and ?t = "fname s @ ''.tmp''"
  have nb: "fname s \<noteq> ?b" and nt: "fname s \<noteq> ?t" by simp_all
  obtain rb fs1 s1 where b: "backupTo env (fs, s) keys ?b False = (rb, (fs1, s1))"
    by (metis prod.exhaust)
  from backupTo_frame [OF b] nb
  have f1: "fs1 (fname s) = fs (fname s)" and i1: "index s1 = index s"
    and n1: "fname s1 = fname s" by auto
  have early: "\<exists>e fs' r. Polish env (fs, s) keys = (Some e, (fs', r)) \<and> before_rename e"
  proof (cases rb)
    case (Some e)
    with b show ?thesis by (simp add: Polish_def)
  next
    case None
    with b backupTo_full_None [of env fs s keys ?b]
    have bk: "open_src_ok env \<and> fs (fname s) \<noteq> None \<and> create_ok env ?b \<and>
        copy_result env = Written" by simp
    show ?thesis
    proof (cases "create_ok env ?t")
      case False
      with b None show ?thesis by (simp add: Polish_def)
    next
      case True
      with assms bk have ex: "\<exists>k \<in> set keys. key_step_fails env (fs, s) k" by blast
      let ?fs1 = "fs1(?t \<mapsto> [])"
      have c: "contents ?fs1 (fname s1) = contents fs (fname s)"
        using nt by (simp add: contents_def n1 f1)
      have "\<And>k. key_step_fails env (?fs1, s1) k = key_step_fails env (fs, s) k"
        by (rule key_step_fails_cong [OF c i1])
      with ex have ex1: "\<exists>k \<in> set keys. key_step_fails env (?fs1, s1) k" by simp
      have t1: "?t \<noteq> fname s1" using nt n1 by simp
      have "\<exists>e w'. write_live env FailedToWritePolishedRecord ?t (?fs1, s1) keys =
          (Some e, w') \<and> before_rename e"
        by (rule write_live_fails [where fs = "?fs1" and s = s1, OF ex1 t1])
      then obtain e fs2 s2 where
        w: "write_live env FailedToWritePolishedRecord ?t (?fs1, s1) keys = (Some e, (fs2, s2))"
        and be: "before_rename e" by (metis prod.exhaust)
      from b None True w have "Polish env (fs, s) keys = (Some e, (fs2, Some s2))"
        by (simp add: Polish_def)
      with be show ?thesis by blast
    qed
  qed
  then obtain e fs' r where P: "Polish env (fs, s) keys = (Some e, (fs', r))"
    and be: "before_rename e" by blast
  from Polish_early_error_frame [OF P be] P be show ?thesis by blast
qed


theorem Polish_failure_before_rename_witness:
  "fst (Polish (ok_env\<lparr>write_result := (\<lambda>b. WriteFailed 0)\<rparr>) (demo_fs, demo_store) [[2]]) =
     Some FailedToWritePolishedRecord \<and>
   fst (snd (Polish (ok_env\<lparr>write_result := (\<lambda>b. WriteFailed 0)\<rparr>) (demo_fs, demo_store) [[2]]))
     (fname demo_store) = demo_fs (fname demo_store) \<and>
   fst (Polish ok_env (demo_fs, demo_store\<lparr>index := Map.empty([2] \<mapsto> 28)\<rparr>) [[2]]) =
     Some (FailedToReadValueLength ErrUnexpectedEOF) \<and>
   fst (snd (Polish ok_env (demo_fs, demo_store\<lparr>index := Map.empty([2] \<mapsto> 28)\<rparr>) [[2]]))
     (fname demo_store) = demo_fs (fname demo_store) \<and>
   fst (Polish (ok_env\<lparr>copy_result := WriteFailed 3\<rparr>) (demo_fs, demo_store) [[2]]) =
     Some (FailedToCreateBackupBeforePolish FailedToCopyFile) \<and>
   fst (snd (Polish (ok_env\<lparr>copy_result := WriteFailed 3\<rparr>) (demo_fs, demo_store) [[2]]))
     (fname demo_store) = demo_fs (fname demo_store) \<and>
   fst (Polish (ok_env\<lparr>create_ok := (\<lambda>p. p \<noteq> ''db.tmp'')\<rparr>) (demo_fs, demo_store) [[2]]) =
     Some FailedToCreateTempFile \<and>
   fst (snd (Polish (ok_env\<lparr>create_ok := (\<lambda>p. p \<noteq> ''db.tmp'')\<rparr>) (demo_fs, demo_store) [[2]]))
     (fname demo_store) = demo_fs (fname demo_store)"
proof -
  let ?e1 = "ok_env\<lparr>write_result := (\<lambda>b. WriteFailed 0)\<rparr>"
  let ?s2 = "demo_store\<lparr>index := Map.empty([2] \<mapsto> 28)\<rparr>"
  let ?e3 = "ok_env\<lparr>copy_result := WriteFailed 3\<rparr>"
  let ?e4 = "ok_env\<lparr>create_ok := (\<lambda>p. p \<noteq> ''db.tmp'')\<rparr>"
  note defs = Polish_def backupTo_def ok_env_def demo_fs_def demo_store_def demo_log_def
    read_value_def read_u32_def file_read_def file_write_def contents_def Let_def
  have n2: "fname ?s2 = fname demo_store" by simp
  \<comment> \<open>the write of a record fails\<close>
  have "key_step_fails ?e1 (demo_fs, demo_store) [2]"
    by (simp add: key_step_fails_def defs)
  then have h1: "\<not> open_src_ok ?e1 \<or> demo_fs (fname demo_store) = None \<or>
      \<not> create_ok ?e1 (fname demo_store @ ''.backup'') \<or> copy_result ?e1 \<noteq> Written \<or>
      \<not> create_ok ?e1 (fname demo_store @ ''.tmp'') \<or>
      (\<exists>k \<in> set [[2]]. key_step_fails ?e1 (demo_fs, demo_store) k)"
    by simp
  have a1: "fst (Polish ?e1 (demo_fs, demo_store) [[2]]) = Some FailedToWritePolishedRecord"
    by (simp add: defs)
  from Polish_failure_before_rename [OF h1]
  have b1: "fst (snd (Polish ?e1 (demo_fs, demo_store) [[2]])) (fname demo_store) =
      demo_fs (fname demo_store)"
    by auto
  \<comment> \<open>the read of a value fails\<close>
  have "key_step_fails ok_env (demo_fs, ?s2) [2]"
    by (simp add: key_step_fails_def defs)
  then have h2: "\<not> open_src_ok ok_env \<or> demo_fs (fname ?s2) = None \<or>
      \<not> create_ok ok_env (fname ?s2 @ ''.backup'') \<or> copy_result ok_env \<noteq> Written \<or>
      \<not> create_ok ok_env (fname ?s2 @ ''.tmp'') \<or>
      (\<exists>k \<in> set [[2]]. key_step_fails ok_env (demo_fs, ?s2) k)"
    by simp
  have a2: "fst (Polish ok_env (demo_fs, ?s2) [[2]]) =
      Some (FailedToReadValueLength ErrUnexpectedEOF)"
    by (simp add: defs)
  from Polish_failure_before_rename [OF h2]
  have b2: "fst (snd (Polish ok_env (demo_fs, ?s2) [[2]])) (fname demo_store) =
      demo_fs (fname demo_store)"
    unfolding n2 by auto
  \<comment> \<open>the backup copy fails\<close>
  have h3: "\<not> open_src_ok ?e3 \<or> demo_fs (fname demo_store) = None \<or>
      \<not> create_ok ?e3 (fname demo_store @ ''.backup'') \<or> copy_result ?e3 \<noteq> Written \<or>
      \<not> create_ok ?e3 (fname demo_store @ ''.tmp'') \<or>
      (\<exists>k \<in> set [[2]]. key_step_fails ?e3 (demo_fs, demo_store) k)"
    by simp
  have a3: "fst (Polish ?e3 (demo_fs, demo_store) [[2]]) =
      Some (FailedToCreateBackupBeforePolish FailedToCopyFile)"
    by (simp add: defs)
  from Polish_failure_before_rename [OF h3]
  have b3: "fst (snd (Polish ?e3 (demo_fs, demo_store) [[2]])) (fname demo_store) =
      demo_fs (fname demo_store)"
    by auto
  \<comment> \<open>the creation of the temporary file fails\<close>
  have h4: "\<not> open_src_ok ?e4 \<or> demo_fs (fname demo_store) = None \<or>
      \<not> create_ok ?e4 (fname demo_store @ ''.backup'') \<or> copy_result ?e4 \<noteq> Written \<or>
      \<not> create_ok ?e4 (fname demo_store @ ''.tmp'') \<or>
      (\<exists>k \<in> set [[2]]. key_step_fails ?e4 (demo_fs, demo_store) k)"
    by (simp add: demo_store_def)
  have a4: "fst (Polish ?e4 (demo_fs, demo_store) [[2]]) = Some FailedToCreateTempFile"
    by (simp add: defs)
  from Polish_failure_before_rename [OF h4]
  have b4: "fst (snd (Polish ?e4 (demo_fs, demo_store) [[2]])) (fname demo_store) =
      demo_fs (fname demo_store)"
    by auto
  from a1 b1 a2 b2 a3 b3 a4 b4 show ?thesis by blast
qed

subsection \<open>What the loop writes\<close>

lemma file_read_length: "file_read n data p = (Inr v, p') \<Longrightarrow> length v = n"
  by (auto simp: file_read_def Let_def split: if_splits)

lemma read_value_Inr:
  assumes "read_value data off = (Inr (n, v), p)"
  shows "length v = n \<and> n < 2 ^ 32 \<and> n = get_u32 (take 4 (drop off data))"
proof -
  from assms obtain p1 where 1: "read_u32 data off = (Inr n, p1)"
    and 2: "file_read n data p1 = (Inr v, p)"
    by (auto simp: read_value_def split: prod.splits sum.splits)
  from 1 have "n = get_u32 (take 4 (drop off data))"
    by (auto simp: read_u32_def Let_def split: if_splits)
  with file_read_length [OF 2] get_u32_less [of "take 4 (drop off data)"]
  show ?thesis by simp
qed

lemma live_record_cong:
  "contents fs' (fname s') = contents fs (fname s) \<Longrightarrow> index s' = index s \<Longrightarrow>
   live_record (fs', s') k = live_record (fs, s) k"
  unfolding live_record_def by (simp only: Get_cong [of fs' s' fs s k])

lemma live_record_absent: "index s k = None \<Longrightarrow> live_record (fs, s) k = []"
  by (simp add: live_record_def Get_def)

lemma write_live_ok:
  "write_live env werr target (fs, s) keys = (None, (fs', s')) \<Longrightarrow>
   target \<noteq> fname s \<Longrightarrow> fs target = Some t \<Longrightarrow>
   fs' = fs(target \<mapsto> t @ concat (map (live_record (fs, s)) keys)) \<and>
   (\<forall>k \<in> set keys. index s k \<noteq> None \<longrightarrow>
      (\<exists>v. fst (Get (fs, s) k) = Inr v \<and> length v < 2 ^ 32))"
proof (induction keys arbitrary: fs s t)
  case Nil
  then have "fs' = fs" by simp
  with Nil.prems(3) show ?case by (simp add: map_upd_triv)
next
  case (Cons key keys)
  show ?case
  proof (cases "index s key")
    case None
    with Cons.prems have "write_live env werr target (fs, s) keys = (None, (fs', s'))"
      by simp
    from Cons.IH [OF this Cons.prems(2,3)] None show ?thesis
      by (simp add: live_record_absent)
  next
    case (Some offset)
    obtain res p where rv: "read_value (contents fs (fname s)) offset = (res, p)"
      by (cases "read_value (contents fs (fname s)) offset")
    from Cons.prems(1) Some rv obtain valLen val where res: "res = Inr (valLen, val)"
      by (cases res) auto
    note rv' = rv [unfolded res]
    from read_value_Inr [OF rv'] have len: "length val = valLen" and lt: "length val < 2 ^ 32"
      by simp_all
    let ?rec = "set_record key valLen val"
    have g: "fst (Get (fs, s) key) = Inr val"
      by (simp add: Get_def Some rv')
    then have lr: "live_record (fs, s) key = ?rec"
      by (simp add: live_record_def len)
    let ?fs1 = "fs(target \<mapsto> t @ ?rec)" and ?s1 = "s\<lparr>fpos := p\<rparr>"
    from Cons.prems Some rv'
    have w: "write_live env werr target (?fs1, ?s1) keys = (None, (fs', s'))"
      by (auto simp: file_write_def contents_def Let_def split: write_outcome.splits)
    have t1: "target \<noteq> fname ?s1" using Cons.prems(2) by simp
    have c: "contents ?fs1 (fname ?s1) = contents fs (fname s)"
      using Cons.prems(2) by (simp add: contents_def)
    have lc: "live_record (?fs1, ?s1) = live_record (fs, s)"
      by (rule ext) (rule live_record_cong [OF c], simp)
    have gc: "\<And>k. fst (Get (?fs1, ?s1) k) = fst (Get (fs, s) k)"
      by (rule Get_cong [OF c]) simp
    have ft: "?fs1 target = Some (t @ ?rec)" by simp
    note ih = Cons.IH [where fs = "?fs1" and s = "?s1" and t = "t @ ?rec", OF w t1 ft]
    have ih1: "fs' = fs(target \<mapsto> t @ ?rec,
        target \<mapsto> (t @ ?rec) @ concat (map (live_record (?fs1, ?s1)) keys))"
      by (rule ih [THEN conjunct1])
    have ih2: "\<forall>k \<in> set keys. index ?s1 k \<noteq> None \<longrightarrow>
        (\<exists>v. fst (Get (?fs1, ?s1) k) = Inr v \<and> length v < 2 ^ 32)"
      by (rule ih [THEN conjunct2])
    from ih2 have rest: "\<forall>k \<in> set keys. index s k \<noteq> None \<longrightarrow>
        (\<exists>v. fst (Get (fs, s) k) = Inr v \<and> length v < 2 ^ 32)"
      by (simp add: gc)
    have fin: "fs' = fs(target \<mapsto> t @ concat (map (live_record (fs, s)) (key # keys)))"
      unfolding ih1 lc by (simp add: lr)
    have "\<exists>v. fst (Get (fs, s) key) = Inr v \<and> length v < 2 ^ 32"
      using g lt by blast
    with rest have all: "\<forall>k \<in> set (key # keys). index s k \<noteq> None \<longrightarrow>
        (\<exists>v. fst (Get (fs, s) k) = Inr v \<and> length v < 2 ^ 32)"
      by simp
    show ?thesis by (rule conjI [OF fin all])
  qed
qed

subsection \<open>Replay of a log of Set records with distinct keys\<close>

lemma replay_untouched:
  "k \<notin> op_key ` set xs \<Longrightarrow> replay S idx xs k = idx k"
proof (induction xs arbitrary: S idx)
  case Nil
  then show ?case by simp
next
  case (Cons x xs)
  then show ?case by (cases x) auto
qed

lemma stored_at_record_mid:
  "stored_at (pre @ set_record k (length v) v @ rest) (length pre + 1 + 4 + length k) v"
proof -
  have e: "length pre + 1 + 4 + length k = length pre + 5 + length k" by simp
  from stored_at_append [OF stored_at_record [of pre k v], of rest]
  show ?thesis unfolding e by (simp only: append_assoc)
qed

lemma set_ops_simps [simp]:
  "set_ops f [] = []" "set_ops f (k # ks) = SetOp k (f k) # set_ops f ks"
  by (simp_all add: set_ops_def)

lemma op_key_set_ops [simp]: "op_key ` set (set_ops f keys) = set keys"
  by (induction keys) auto

lemma encode_ops_Cons: "encode_ops (x # xs) = encode_op x @ encode_ops xs"
  by (simp add: encode_ops_def)

lemma replay_set_ops:
  "distinct keys \<Longrightarrow> k \<in> set keys \<Longrightarrow>
   \<exists>off. replay (length pre) idx (set_ops f keys) k = Some off \<and>
     stored_at (pre @ encode_ops (set_ops f keys) @ rest) off (f k)"
proof (induction keys arbitrary: pre idx)
  case Nil
  then show ?case by simp
next
  case (Cons a ks)
  let ?rec = "set_record a (length (f a)) (f a)"
  have l: "length pre + 1 + 4 + length a + 4 + length (f a) = length (pre @ ?rec)"
    by simp
  have r: "replay (length pre) idx (set_ops f (a # ks)) =
      replay (length (pre @ ?rec)) (idx(a \<mapsto> length pre + 1 + 4 + length a)) (set_ops f ks)"
    unfolding l [symmetric] by simp
  have d: "pre @ encode_ops (set_ops f (a # ks)) @ rest =
      (pre @ ?rec) @ encode_ops (set_ops f ks) @ rest"
    by (simp add: encode_ops_Cons)
  show ?case
  proof (cases "k = a")
    case True
    with Cons.prems have "k \<notin> op_key ` set (set_ops f ks)" by simp
    from replay_untouched [OF this]
    have "replay (length pre) idx (set_ops f (a # ks)) k = Some (length pre + 1 + 4 + length a)"
      unfolding r by (simp add: True)
    moreover have "stored_at (pre @ encode_ops (set_ops f (a # ks)) @ rest)
        (length pre + 1 + 4 + length a) (f k)"
      using stored_at_record_mid [of pre a "f a" "encode_ops (set_ops f ks) @ rest"]
      by (simp add: True encode_ops_Cons)
    ultimately show ?thesis by blast
  next
    case False
    with Cons.prems have "distinct ks" and "k \<in> set ks" by simp_all
    from Cons.IH [OF this, where pre = "pre @ ?rec"
        and idx = "idx(a \<mapsto> length pre + 1 + 4 + length a)"]
    show ?thesis unfolding r d .
  qed
qed

lemma replay_set_ops_other:
  "k \<notin> set keys \<Longrightarrow> replay S idx (set_ops f keys) k = idx k"
  by (rule replay_untouched) simp

subsection \<open>The records the index points into fit into the file\<close>










subsection \<open>The polished log\<close>

lemma live_record_Inr:
  "fst (Get w k) = Inr v \<Longrightarrow>
   live_record w k = encode_op (SetOp k v) \<and> value_of w k = v"
  by (simp add: live_record_def value_of_def)

lemma live_log:
  assumes "\<forall>k \<in> set keys. \<exists>v. fst (Get w k) = Inr v \<and> length v < 2 ^ 32"
    and "\<forall>k \<in> set keys. length k < 2 ^ 32"
  shows "concat (map (live_record w) keys) = encode_ops (set_ops (value_of w) keys) \<and>
     (\<forall>x \<in> set (set_ops (value_of w) keys). op_fits x)"
  using assms
proof (induction keys)
  case Nil
  then show ?case by (simp add: encode_ops_def)
next
  case (Cons a ks)
  from Cons.prems(1) obtain v where v: "fst (Get w a) = Inr v" and lv: "length v < 2 ^ 32"
    by auto
  from live_record_Inr [OF v] have 1: "live_record w a = encode_op (SetOp a v)"
    and 2: "value_of w a = v" by simp_all
  from Cons.prems(2) have la: "length a < 2 ^ 32" by simp
  from Cons.IH Cons.prems
  have IH: "concat (map (live_record w) ks) = encode_ops (set_ops (value_of w) ks)"
    and IH2: "\<forall>x \<in> set (set_ops (value_of w) ks). op_fits x" by simp_all
  have "concat (map (live_record w) (a # ks)) = encode_ops (set_ops (value_of w) (a # ks))"
    unfolding set_ops_simps encode_ops_Cons 2 by (simp only: list.map concat.simps 1 IH)
  moreover have "\<forall>x \<in> set (set_ops (value_of w) (a # ks)). op_fits x"
    using IH2 la lv by (simp add: 2)
  ultimately show ?case by (rule conjI)
qed

lemma polished_index:
  assumes "\<forall>k \<in> set keys. \<exists>v. fst (Get w k) = Inr v \<and> length v < 2 ^ 32"
    and "\<forall>k \<in> set keys. length k < 2 ^ 32"
  shows "buildIndex_loop (concat (map (live_record w) keys)) 0 idx =
     (None, length (concat (map (live_record w) keys)),
      replay 0 idx (set_ops (value_of w) keys))"
proof -
  from live_log [OF assms]
  have e: "concat (map (live_record w) keys) = encode_ops (set_ops (value_of w) keys)"
    and f: "\<forall>x \<in> set (set_ops (value_of w) keys). op_fits x" by simp_all
  from buildIndex_loop_ops [OF f, of "[]" idx] show ?thesis unfolding e by simp
qed

lemma polished_store:
  assumes got: "\<forall>k \<in> set keys. \<exists>v. fst (Get w k) = Inr v \<and> length v < 2 ^ 32"
    and fit: "\<forall>k \<in> set keys. length k < 2 ^ 32"
    and dist: "distinct keys"
    and D: "contents fsN (fname b) = concat (map (live_record w) keys)"
    and I: "index b = replay 0 idx (set_ops (value_of w) keys)"
  shows "(k \<in> set keys \<longrightarrow> fst (Get (fsN, b) k) = fst (Get w k) \<and> index b k \<noteq> None) \<and>
     (k \<notin> set keys \<longrightarrow> index b k = idx k)"
proof (intro conjI impI)
  assume k: "k \<in> set keys"
  from got k obtain v where v: "fst (Get w k) = Inr v" and lv: "length v < 2 ^ 32" by auto
  from live_record_Inr [OF v] have vo: "value_of w k = v" by simp
  from live_log [OF got fit]
  have e: "concat (map (live_record w) keys) = encode_ops (set_ops (value_of w) keys)"
    by simp
  from replay_set_ops [OF dist k, of "[]" idx "value_of w" "[]"]
  obtain off where o: "replay 0 idx (set_ops (value_of w) keys) k = Some off"
    and st: "stored_at (encode_ops (set_ops (value_of w) keys)) off (value_of w k)"
    by auto
  have "holds (fsN, b) k v"
    unfolding holds_def using o st by (simp add: D I e vo)
  from holds_Get [OF this lv] v show "fst (Get (fsN, b) k) = fst (Get w k)" by simp
  from o show "index b k \<noteq> None" by (simp add: I)
next
  assume "k \<notin> set keys"
  from replay_set_ops_other [OF this] show "index b k = idx k" by (simp add: I)
qed




lemma Get_absent: "index s k = None \<Longrightarrow> fst (Get (fs, s) k) = Inl KeyNotFound"
  by (simp add: Get_def)

lemma write_live_polished:
  assumes w: "write_live env werr target (fs, s) keys = (None, (fs', s'))"
    and t: "target \<noteq> fname s" and e: "fs target = Some []"
    and dist: "distinct keys" and dom: "set keys = dom (index s)"
    and fit: "\<forall>k \<in> dom (index s). length k < 2 ^ 32"
  shows "fs' target = Some (concat (map (live_record (fs, s)) keys)) \<and>
     (\<forall>k \<in> set keys. \<exists>v. fst (Get (fs, s) k) = Inr v \<and> length v < 2 ^ 32) \<and>
     (\<forall>q. q \<noteq> target \<longrightarrow> fs' q = fs q) \<and> index s' = index s \<and> fname s' = fname s"
proof -
  from write_live_ok [OF w t e]
  have 1: "fs' = fs(target \<mapsto> [] @ concat (map (live_record (fs, s)) keys))"
    and 2: "\<forall>k \<in> set keys. index s k \<noteq> None \<longrightarrow>
      (\<exists>v. fst (Get (fs, s) k) = Inr v \<and> length v < 2 ^ 32)"
    by blast+
  from 2 dom have 3: "\<forall>k \<in> set keys. \<exists>v. fst (Get (fs, s) k) = Inr v \<and> length v < 2 ^ 32"
    by auto
  from 1 have 4: "fs' target = Some (concat (map (live_record (fs, s)) keys))" by simp
  from write_live_frame [OF w] 3 4 show ?thesis by blast
qed

text \<open>
  C5. Take a store, a list \<open>keys\<close> of the keys of its index in the order the loop visits
  them, keys shorter than \<open>2 ^ 32\<close> bytes, and a target path other than the store's own
  file. A polished backup that succeeds leaves the store's file and index as they were;
  the file it wrote opens with \<open>NewStore\<close>, and the store so opened has exactly the keys
  of the source, and \<open>Get\<close> answers on it what it answers on the source, for every key.
  A full backup that succeeds writes a file equal, byte for byte, to the store's file,
  and leaves the store's file and index as they were.
\<close>

theorem Backup_fidelity:
  assumes p: "p \<noteq> fname s" and dist: "distinct keys" and dom: "set keys = dom (index s)"
    and fit: "\<forall>k \<in> dom (index s). length k < 2 ^ 32" and open_ok: "create_ok env' p"
  shows "(Backup env (fs, s) keys p True = (None, (fsT, sT)) \<longrightarrow>
       fsT (fname s) = fs (fname s) \<and> index sT = index s \<and>
       (\<exists>b. NewStore env' fsT p = (Inr b, fsT) \<and> dom (index b) = dom (index s) \<and>
          (\<forall>k. fst (Get (fsT, b) k) = fst (Get (fs, s) k)))) \<and>
     (Backup env (fs, s) keys p False = (None, (fsF, sF)) \<longrightarrow>
       fsF p = fs (fname s) \<and> fsF (fname s) = fs (fname s) \<and> index sF = index s)"
proof (rule conjI; rule impI)
  assume B: "Backup env (fs, s) keys p True = (None, (fsT, sT))"
  let ?w0 = "(fs(p \<mapsto> []), s)"
  from B have w: "write_live env FailedToWriteBackupRecord p ?w0 keys = (None, (fsT, sT))"
    by (simp add: Backup_def backupTo_def split: if_splits)
  have e: "(fs(p \<mapsto> [])) p = Some []" by simp
  from write_live_polished [OF w p e dist dom fit]
  have D: "fsT p = Some (concat (map (live_record ?w0) keys))"
    and got: "\<forall>k \<in> set keys. \<exists>v. fst (Get ?w0 k) = Inr v \<and> length v < 2 ^ 32"
    and frame: "\<forall>q. q \<noteq> p \<longrightarrow> fsT q = (fs(p \<mapsto> [])) q"
    and i: "index sT = index s"
    by blast+
  from frame p have f: "fsT (fname s) = fs (fname s)" by simp
  have c0: "contents (fs(p \<mapsto> [])) (fname s) = contents fs (fname s)"
    using p by (simp add: contents_def)
  have g0: "\<And>k. fst (Get ?w0 k) = fst (Get (fs, s) k)"
    by (rule Get_cong [OF c0 refl])
  from fit dom have fit': "\<forall>k \<in> set keys. length k < 2 ^ 32" by simp
  let ?D = "concat (map (live_record ?w0) keys)"
  let ?b = "\<lparr>fname = p, fpos = length ?D,
      index = replay 0 Map.empty (set_ops (value_of ?w0) keys)\<rparr>"
  have N: "NewStore env' fsT p = (Inr ?b, fsT)"
    using open_ok D polished_index [OF got fit', of Map.empty]
    by (simp add: NewStore_def buildIndex_def contents_def)
  have cD: "contents fsT (fname ?b) = ?D" by (simp add: contents_def D)
  have iD: "index ?b = replay 0 Map.empty (set_ops (value_of ?w0) keys)" by simp
  note ps = polished_store [OF got fit' dist cD iD]
  have G: "\<forall>k. fst (Get (fsT, ?b) k) = fst (Get (fs, s) k)"
  proof
    fix k
    show "fst (Get (fsT, ?b) k) = fst (Get (fs, s) k)"
    proof (cases "k \<in> set keys")
      case True
      with ps [of k] show ?thesis by (simp only: g0)
    next
      case False
      with ps [of k] have "index ?b k = None" by simp
      moreover from False dom have "index s k = None" by auto
      ultimately show ?thesis by (simp only: Get_absent)
    qed
  qed
  have "dom (index ?b) = dom (index s)"
  proof (rule set_eqI)
    fix k
    show "k \<in> dom (index ?b) \<longleftrightarrow> k \<in> dom (index s)"
      using ps [of k] dom by (cases "k \<in> set keys") auto
  qed
  with N G f i
  show "fsT (fname s) = fs (fname s) \<and> index sT = index s \<and>
       (\<exists>b. NewStore env' fsT p = (Inr b, fsT) \<and> dom (index b) = dom (index s) \<and>
          (\<forall>k. fst (Get (fsT, b) k) = fst (Get (fs, s) k)))"
    by blast
next
  assume "Backup env (fs, s) keys p False = (None, (fsF, sF))"
  then show "fsF p = fs (fname s) \<and> fsF (fname s) = fs (fname s) \<and> index sF = index s"
    using p
    by (auto simp: Backup_def backupTo_def Let_def contents_def
        split: if_splits write_outcome.splits)
qed

theorem Backup_fidelity_witness:
  "Backup ok_env (demo_fs, demo_store) [[2]] ''bak'' True =
     (None, (demo_fs(''bak'' \<mapsto> [0, 1, 0, 0, 0, 2, 2, 0, 0, 0, 7, 7]), demo_store)) \<and>
   (\<exists>b. NewStore ok_env (demo_fs(''bak'' \<mapsto> [0, 1, 0, 0, 0, 2, 2, 0, 0, 0, 7, 7])) ''bak'' =
       (Inr b, demo_fs(''bak'' \<mapsto> [0, 1, 0, 0, 0, 2, 2, 0, 0, 0, 7, 7])) \<and>
     dom (index b) = dom (index demo_store) \<and>
     fst (Get (demo_fs(''bak'' \<mapsto> [0, 1, 0, 0, 0, 2, 2, 0, 0, 0, 7, 7]), b) [2]) =
       fst (Get (demo_fs, demo_store) [2])) \<and>
   Backup ok_env (demo_fs, demo_store) [[2]] ''full'' False =
     (None, (demo_fs(''full'' \<mapsto> demo_log), demo_store)) \<and>
   (demo_fs(''full'' \<mapsto> demo_log)) ''full'' = demo_fs (fname demo_store)"
proof -
  let ?new = "[0, 1, 0, 0, 0, 2, 2, 0, 0, 0, 7, 7] :: bytes"
  have 1: "Backup ok_env (demo_fs, demo_store) [[2]] ''bak'' True =
      (None, (demo_fs(''bak'' \<mapsto> ?new), demo_store))"
    by (simp add: Backup_def backupTo_def ok_env_def demo_fs_def demo_store_def demo_log_def
        read_value_def read_u32_def file_read_def file_write_def set_record_def put_u32_def
        contents_def Let_def)
  have 2: "Backup ok_env (demo_fs, demo_store) [[2]] ''full'' False =
      (None, (demo_fs(''full'' \<mapsto> demo_log), demo_store))"
    by (simp add: Backup_def backupTo_def ok_env_def demo_fs_def demo_store_def
        contents_def Let_def)
  have h1: "''bak'' \<noteq> fname demo_store"
    by (simp add: demo_store_def)
  have h2: "distinct [[2 :: byte]]" by simp
  have h3: "set [[2]] = dom (index demo_store)" by (simp add: demo_store_def)
  have h4: "\<forall>k \<in> dom (index demo_store). length k < 2 ^ 32" by (simp add: demo_store_def)
  have h5: "create_ok ok_env ''bak''"
    by (simp add: ok_env_def)
  from Backup_fidelity [OF h1 h2 h3 h4 h5, of ok_env demo_fs "demo_fs(''bak'' \<mapsto> ?new)"
      demo_store] 1
  have a: "\<exists>b. NewStore ok_env (demo_fs(''bak'' \<mapsto> ?new)) ''bak'' =
       (Inr b, demo_fs(''bak'' \<mapsto> ?new)) \<and>
     dom (index b) = dom (index demo_store) \<and>
     fst (Get (demo_fs(''bak'' \<mapsto> ?new), b) [2]) = fst (Get (demo_fs, demo_store) [2])"
    by blast
  have b: "(demo_fs(''full'' \<mapsto> demo_log)) ''full'' = demo_fs (fname demo_store)"
    by (simp add: demo_fs_def demo_store_def)
  from 1 a 2 b show ?thesis by blast
qed

subsection \<open>Polish\<close>





end
